theory Spec2Isabelle
  imports Main "HOL-Library.Word"
begin

unbundle bit_operations_syntax

section \<open>Version catalog hashes (common/version.py)\<close>

text \<open>
  Python integers are unbounded, so the source functions are embedded over \<open>int\<close> with
  the masks \<open>_mask32\<close> and \<open>_mask64\<close> written out. Python's \<open><<\<close>, \<open>>>\<close>, \<open>^\<close> and
  \<open>|\<close> on integers are \<open>push_bit\<close>, \<open>drop_bit\<close>, \<open>XOR\<close> and \<open>OR\<close> on \<open>int\<close>.
\<close>

definition mask32 :: "int \<Rightarrow> int" where "mask32 v = v AND 0xFFFFFFFF"
definition mask64 :: "int \<Rightarrow> int" where "mask64 v = v AND 0xFFFFFFFFFFFFFFFF"

definition hash_value_unsigned :: "int \<Rightarrow> int" where
  "hash_value_unsigned v0 =
    (let v1 = mask32 (push_bit 15 v0 - v0 - 1);
         v2 = mask32 (v1 XOR drop_bit 12 v1);
         v3 = mask32 (v2 + push_bit 2 v2);
         v4 = mask32 (v3 XOR drop_bit 4 v3);
         v5 = mask32 (v4 * 2057);
         v6 = mask32 (v5 XOR drop_bit 16 v5)
     in v6)"

definition hash_combine :: "int \<Rightarrow> int \<Rightarrow> int" where
  "hash_combine seed0 value0 =
    (let value1 = mask32 (value0 * 0xCC9E2D51);
         value2 = mask32 (drop_bit 15 value1 OR push_bit 17 value1);
         value3 = mask32 (value2 * 0x1B873593);
         seed1 = seed0 XOR value3;
         seed2 = mask32 (drop_bit 13 seed1 OR push_bit 19 seed1);
         seed3 = mask32 (seed2 * 5 + 0xE6546B64)
     in seed3)"

definition hash_combine64 :: "int \<Rightarrow> int \<Rightarrow> int" where
  "hash_combine64 seed0 value0 =
    (let m = 0xC6A4A7935BD1E995;
         value1 = mask64 (value0 * m);
         value2 = mask64 (value1 XOR drop_bit 47 value1);
         value3 = mask64 (value2 * m);
         seed1 = mask64 (seed0 XOR value3);
         seed2 = mask64 (seed1 * m)
     in seed2)"

definition version_hash :: "int \<Rightarrow> int \<Rightarrow> int \<Rightarrow> int \<Rightarrow> int" where
  "version_hash major minor build patch =
    (let seed = 0;
         seed = hash_combine seed (hash_value_unsigned patch);
         seed = hash_combine seed (hash_value_unsigned build);
         seed = hash_combine seed (hash_value_unsigned minor);
         seed = hash_combine seed (hash_value_unsigned major)
     in seed)"

definition version_hash64 :: "int \<Rightarrow> int \<Rightarrow> int \<Rightarrow> int \<Rightarrow> int" where
  "version_hash64 major minor build patch =
    (let seed = 0;
         seed = hash_combine64 seed (hash_value_unsigned patch);
         seed = hash_combine64 seed (hash_value_unsigned build);
         seed = hash_combine64 seed (hash_value_unsigned minor);
         seed = hash_combine64 seed (hash_value_unsigned major)
     in mask32 seed)"

subsection \<open>The hash recipes as the specification words them\<close>

text \<open>
  The specification describes the recipes over unsigned 32-bit values with wrap-around
  (and a 64-bit seed for the second variant). These definitions follow its words over
  machine words; they are compared with the embedded source functions below.
\<close>

definition spec_H :: "32 word \<Rightarrow> 32 word" where
  "spec_H v0 =
    (let v1 = push_bit 15 v0 - v0 - 1;
         v2 = v1 XOR drop_bit 12 v1;
         v3 = v2 + push_bit 2 v2;
         v4 = v3 XOR drop_bit 4 v3;
         v5 = v4 * 2057;
         v6 = v5 XOR drop_bit 16 v5
     in v6)"

definition spec_combine32 :: "32 word \<Rightarrow> 32 word \<Rightarrow> 32 word" where
  "spec_combine32 seed0 x0 =
    (let x1 = x0 * 0xCC9E2D51;
         x2 = word_rotl 17 x1;
         x3 = x2 * 0x1B873593;
         seed1 = seed0 XOR x3;
         seed2 = word_rotl 19 seed1;
         seed3 = seed2 * 5 + 0xE6546B64
     in seed3)"

definition spec_combine64 :: "64 word \<Rightarrow> 32 word \<Rightarrow> 64 word" where
  "spec_combine64 seed0 x0 =
    (let m = 0xC6A4A7935BD1E995;
         x1 = ucast x0 * m;
         x2 = x1 XOR drop_bit 47 x1;
         x3 = x2 * m
     in (seed0 XOR x3) * m)"

definition spec_version_hash :: "32 word \<Rightarrow> 32 word \<Rightarrow> 32 word \<Rightarrow> 32 word \<Rightarrow> 32 word" where
  "spec_version_hash major minor build patch =
     fold (\<lambda>c seed. spec_combine32 seed (spec_H c)) [patch, build, minor, major] 0"

definition spec_version_hash64 :: "32 word \<Rightarrow> 32 word \<Rightarrow> 32 word \<Rightarrow> 32 word \<Rightarrow> 32 word" where
  "spec_version_hash64 major minor build patch =
     ucast (fold (\<lambda>c seed. spec_combine64 seed (spec_H c)) [patch, build, minor, major] 0)"

subsection \<open>Masked integer arithmetic is word arithmetic\<close>

lemma mask32_uint: "mask32 k = uint (word_of_int k :: 32 word)"
proof -
  have "(0xFFFFFFFF::int) = mask 32" by (simp add: mask_eq_exp_minus_1)
  then show ?thesis by (simp add: mask32_def uint_word_of_int_eq take_bit_eq_mask)
qed

lemma mask64_uint: "mask64 k = uint (word_of_int k :: 64 word)"
proof -
  have "(0xFFFFFFFFFFFFFFFF::int) = mask 64" by (simp add: mask_eq_exp_minus_1)
  then show ?thesis by (simp add: mask64_def uint_word_of_int_eq take_bit_eq_mask)
qed

lemma woi_push_bit: "(word_of_int (push_bit n k) :: 'a::len word) = push_bit n (word_of_int k)"
  by (simp add: push_bit_eq_mult)

lemma woi_drop_bit_uint: "(word_of_int (drop_bit n (uint w)) :: 'a::len word) = drop_bit n w"
proof -
  have "uint (drop_bit n w) = drop_bit n (uint w)"
    by (simp add: unsigned_drop_bit_eq take_bit_length_eq unsigned_take_bit_eq [symmetric])
  then show ?thesis by (metis word_of_int_uint)
qed

lemma woi_xor: "(word_of_int (a XOR b) :: 'a::len word) = word_of_int a XOR word_of_int b"
  by (simp add: word_wi_log_defs)

lemma woi_or: "(word_of_int (a OR b) :: 'a::len word) = word_of_int a OR word_of_int b"
  by (simp add: word_wi_log_defs)

lemma rotl_as_shifts:
  fixes w :: "'a::len word"
  assumes "0 < m" "m < LENGTH('a)"
  shows "drop_bit (LENGTH('a) - m) w OR push_bit m w = word_rotl m w"
proof (rule bit_word_eqI)
  fix n assume n: "n < LENGTH('a)"
  show "bit (drop_bit (LENGTH('a) - m) w OR push_bit m w) n = bit (word_rotl m w) n"
  proof (cases "n < m")
    case True
    then have "(n + (LENGTH('a) - m)) mod LENGTH('a) = n + (LENGTH('a) - m)"
      using assms by simp
    with True n assms show ?thesis
      by (auto simp add: bit_or_iff bit_drop_bit_eq bit_push_bit_iff bit_word_rotl_iff add.commute)
  next
    case False
    then have "n + (LENGTH('a) - m) = LENGTH('a) + (n - m)" using assms by simp
    moreover have "(LENGTH('a) + (n - m)) mod LENGTH('a) = n - m"
      using n by simp
    ultimately have "(n + (LENGTH('a) - m)) mod LENGTH('a) = n - m"
      by simp
    with False n assms show ?thesis
      by (auto simp add: bit_or_iff bit_drop_bit_eq bit_push_bit_iff bit_word_rotl_iff dest: bit_imp_le_length)
  qed
qed

lemma hash_value_unsigned_word:
  "hash_value_unsigned v = uint (spec_H (word_of_int v))"
  unfolding hash_value_unsigned_def spec_H_def Let_def mask32_uint
  by (simp add: woi_push_bit woi_drop_bit_uint woi_xor)


lemma hash_combine_word:
  "hash_combine (uint seed) (uint x) = uint (spec_combine32 seed x)"
  unfolding hash_combine_def spec_combine32_def Let_def mask32_uint
  by (simp add: woi_push_bit woi_drop_bit_uint woi_xor woi_or
      rotl_as_shifts [where ?'a = 32 and m = 17, simplified, symmetric]
      rotl_as_shifts [where ?'a = 32 and m = 19, simplified, symmetric])

lemma hash_combine64_word:
  "hash_combine64 (uint seed) (uint x) = uint (spec_combine64 seed x)"
  unfolding hash_combine64_def spec_combine64_def Let_def mask64_uint
  by (simp add: woi_push_bit woi_drop_bit_uint woi_xor woi_or)

lemma mask32_take_bit: "mask32 k = take_bit 32 k"
proof -
  have "(0xFFFFFFFF::int) = mask 32" by (simp add: mask_eq_exp_minus_1)
  then show ?thesis by (simp add: mask32_def take_bit_eq_mask)
qed

lemma mask32_ucast64: "mask32 (uint (s :: 64 word)) = uint (ucast s :: 32 word)"
  by (simp add: unsigned_ucast_eq mask32_take_bit)

text \<open>
  Claim C1. For all component values, \<open>version_hash\<close> is the fold of
  \<open>hash_combine\<close> over \<open>hash_value_unsigned\<close> of patch, build, minor and major (in
  that order) from seed 0, every step taken with unsigned 32-bit wrap-around, rotations
  by 17 and 19 and the stated constants; \<open>version_hash64\<close> is the same fold with the
  64-bit mix of multiplier \<open>0xC6A4A7935BD1E995\<close>, truncated to 32 bits at the end.
\<close>

theorem version_hash_refines:
  "version_hash major minor build patch =
     uint (spec_version_hash (word_of_int major) (word_of_int minor) (word_of_int build) (word_of_int patch))
   \<and> version_hash64 major minor build patch =
     uint (spec_version_hash64 (word_of_int major) (word_of_int minor) (word_of_int build) (word_of_int patch))"
proof
  have z: "(0::int) = uint (0 :: 32 word)" by simp
  show "version_hash major minor build patch =
     uint (spec_version_hash (word_of_int major) (word_of_int minor) (word_of_int build) (word_of_int patch))"
    unfolding version_hash_def spec_version_hash_def Let_def hash_value_unsigned_word
    by (subst z) (simp only: hash_combine_word fold_simps id_apply o_apply)
  have z64: "(0::int) = uint (0 :: 64 word)" by simp
  show "version_hash64 major minor build patch =
     uint (spec_version_hash64 (word_of_int major) (word_of_int minor) (word_of_int build) (word_of_int patch))"
    unfolding version_hash64_def spec_version_hash64_def Let_def hash_value_unsigned_word
    by (subst z64) (simp only: hash_combine64_word mask32_ucast64 fold_simps id_apply o_apply)
qed


section \<open>Binary reader and varint (v6/parser.py)\<close>

text \<open>
  Python exceptions are values. \<open>struct.unpack_from\<close> raises \<open>struct.error\<close> when fewer
  bytes remain than the format needs; indexing past the end raises \<open>IndexError\<close>.
\<close>

datatype error = StructError | IndexError | ValueError string

type_synonym byte = "8 word"

record BinaryReader =
  data :: "byte list"
  pos :: nat

text \<open>Little-endian decoding of a byte run, as \<open>struct.unpack_from\<close> with the formats
  \<open><H\<close> and \<open><I\<close> does it.\<close>

fun le_uint :: "byte list \<Rightarrow> int" where
  "le_uint [] = 0"
| "le_uint (b # bs) = uint b + 256 * le_uint bs"

definition unpack_from_le :: "nat \<Rightarrow> byte list \<Rightarrow> nat \<Rightarrow> error + int" where
  "unpack_from_le n d p =
     (if p + n \<le> length d then Inr (le_uint (take n (drop p d))) else Inl StructError)"

definition read_uint32 :: "BinaryReader \<Rightarrow> error + (int \<times> BinaryReader)" where
  "read_uint32 r =
     (case unpack_from_le 4 (data r) (pos r) of
        Inl e \<Rightarrow> Inl e
      | Inr val \<Rightarrow> Inr (val, r\<lparr>pos := pos r + 4\<rparr>))"

definition read_int :: "BinaryReader \<Rightarrow> error + (int \<times> BinaryReader)" where
  "read_int r =
     (case read_uint32 r of
        Inl e \<Rightarrow> Inl e
      | Inr (answer, r1) \<Rightarrow>
          let bytes_count = (answer AND 3) + 1;
              r2 = r1\<lparr>pos := pos r1 - nat (4 - bytes_count)\<rparr>;
              mask = drop_bit (nat (32 - push_bit 3 bytes_count)) (0xFFFFFFFF :: int);
              answer = answer AND mask;
              answer = drop_bit 2 answer
          in Inr (answer, r2))"

text \<open>
  The repository only decodes. The inverse direction, used to state the round trip, is
  the encoding the format describes: the value shifted left by two, the byte count
  minus one in the two low bits, written little-endian in the least number of bytes.
\<close>

definition spec_encode_int :: "int \<Rightarrow> byte list" where
  "spec_encode_int m =
     (let v = push_bit 2 m;
          n = (if v > 0xFFFFFF then 4 else if v > 0xFFFF then 3 else if v > 0xFF then 2 else 1 :: nat);
          v = v OR int (n - 1)
      in map (\<lambda>i. word_of_int (drop_bit (8 * i) v)) [0..<n])"


lemma le_uint_bounds: "0 \<le> le_uint bs \<and> le_uint bs < 2 ^ (8 * length bs)"
proof (induction bs)
  case Nil then show ?case by simp
next
  case (Cons b bs)
  have "uint b < 256" using uint_bounded [of b] by simp
  moreover have "0 \<le> uint b" by simp
  ultimately show ?case using Cons by (simp add: power_add) 
qed

lemma bytes_count_range: "0 \<le> (w::int) AND 3 \<and> w AND 3 \<le> 3"
  by (simp add: AND_upper2')

lemma mask_shift:
  "n \<in> {1,2,3,4} \<Longrightarrow> drop_bit (nat (32 - push_bit 3 (int n))) (0xFFFFFFFF :: int) = mask (8 * n)"
  by (auto simp add: mask_eq_exp_minus_1 push_bit_eq_mult drop_bit_eq_div)

lemma read_uint32_ok:
  "pos r + 4 \<le> length (data r) \<Longrightarrow>
   read_uint32 r = Inr (le_uint (take 4 (drop (pos r) (data r))), r\<lparr>pos := pos r + 4\<rparr>)"
  by (simp add: read_uint32_def unpack_from_le_def)

lemma read_int_ok:
  assumes "pos r + 4 \<le> length (data r)"
  shows "read_int r =
    (let w = le_uint (take 4 (drop (pos r) (data r)));
         n = nat ((w AND 3) + 1)
     in Inr (drop_bit 2 (take_bit (8 * n) w), r\<lparr>pos := pos r + n\<rparr>))"
proof -
  define w where "w = le_uint (take 4 (drop (pos r) (data r)))"
  define n where "n = nat ((w AND 3) + 1)"
  have bc: "0 \<le> w AND 3" "w AND 3 \<le> 3" using bytes_count_range [of w] by simp_all
  then have "1 \<le> n" "n \<le> 4" unfolding n_def by linarith+
  then have n1: "n \<in> {1,2,3,4}" by auto
  have n2: "int n = (w AND 3) + 1" using bc unfolding n_def by simp
  note n = n1 n2
  have m: "drop_bit (nat (32 - push_bit 3 ((w AND 3) + 1))) (0xFFFFFFFF :: int) = mask (8 * n)"
    using mask_shift [OF n(1)] n(2) by simp
  have p: "pos r + 4 - nat (4 - ((w AND 3) + 1)) = pos r + n"
  proof -
    obtain k where k: "w AND 3 = int k" using bc(1) nonneg_int_cases by blast
    with bc(2) have "k \<le> 3" by simp
    then show ?thesis unfolding n_def k by (simp add: nat_diff_distrib')
  qed
  show ?thesis
    unfolding read_int_def read_uint32_ok [OF assms] w_def [symmetric] Let_def n_def [symmetric]
    apply (simp only: sum.case prod.case m take_bit_eq_mask)
    using p by simp
qed

lemma le_uint_append:
  "le_uint (xs @ ys) = le_uint xs + 2 ^ (8 * length xs) * le_uint ys"
  by (induction xs) (simp_all add: algebra_simps power_add)

lemma take_bit_le_uint_prefix:
  "take_bit (8 * length xs) (le_uint (xs @ ys)) = le_uint xs"
proof -
  have "take_bit (8 * length xs) (le_uint xs + 2 ^ (8 * length xs) * le_uint ys)
      = take_bit (8 * length xs) (le_uint xs)"
    by (simp add: take_bit_eq_mod)
  also have "\<dots> = le_uint xs"
    using le_uint_bounds [of xs] by (simp add: take_bit_int_eq_self)
  finally show ?thesis by (simp add: le_uint_append)
qed

lemma take_bit_split_byte:
  "take_bit (8 * n) (v::int) + 2 ^ (8 * n) * take_bit 8 (drop_bit (8 * n) v) = take_bit (8 * Suc n) v"
proof -
  have "take_bit (8 * Suc n) v =
        take_bit (8 * n) (take_bit (8 * Suc n) v) + push_bit (8 * n) (drop_bit (8 * n) (take_bit (8 * Suc n) v))"
    using bits_ident [of "8 * n" "take_bit (8 * Suc n) v"] by (simp only: add.commute)
  also have "take_bit (8 * n) (take_bit (8 * Suc n) v) = take_bit (8 * n) v"
    by (simp add: min_def)
  also have "drop_bit (8 * n) (take_bit (8 * Suc n) v) = take_bit 8 (drop_bit (8 * n) v)"
    by (simp add: drop_bit_take_bit)
  finally show ?thesis by (simp add: push_bit_eq_mult)
qed

lemma le_uint_bytes_of:
  "le_uint (map (\<lambda>i. word_of_int (drop_bit (8 * i) v) :: byte) [0..<n]) = take_bit (8 * n) v"
proof (induction n)
  case 0 show ?case by simp
next
  case (Suc n)
  have "uint (word_of_int (drop_bit (8 * n) v) :: byte) = take_bit 8 (drop_bit (8 * n) v)"
    by (simp add: uint_word_of_int_eq)
  then show ?case using Suc take_bit_split_byte [of n v]
    by (simp add: le_uint_append)
qed

lemma low_bits_or:
  assumes "0 \<le> k" "k \<le> 3"
  shows "(push_bit 2 (m::int) OR k) AND 3 = k" and "drop_bit 2 (push_bit 2 m OR k) = m"
proof -
  have k: "take_bit 2 k = k" using assms by (simp add: take_bit_int_eq_self)
  have "(push_bit 2 m OR k) AND 3 = take_bit 2 (push_bit 2 m OR k)"
    by (simp add: take_bit_eq_mask mask_eq_exp_minus_1)
  also have "\<dots> = k" using k by (simp add: take_bit_or take_bit_push_bit) 
  finally show "(push_bit 2 m OR k) AND 3 = k" .
  have "drop_bit 2 k = 0" using assms by (simp add: drop_bit_eq_div)
  moreover have "drop_bit 2 (push_bit 2 m) = m"
    by (simp add: drop_bit_push_bit)
  ultimately show "drop_bit 2 (push_bit 2 m OR k) = m"
    by (simp only: drop_bit_or or.right_neutral)
qed

definition spec_encode_width :: "int \<Rightarrow> nat" where
  "spec_encode_width m =
     (let v = push_bit 2 m
      in if v > 0xFFFFFF then 4 else if v > 0xFFFF then 3 else if v > 0xFF then 2 else 1)"

lemma spec_encode_int_alt:
  "spec_encode_int m =
     map (\<lambda>i. word_of_int (drop_bit (8 * i) (push_bit 2 m OR int (spec_encode_width m - 1))))
       [0..<spec_encode_width m]"
  by (simp add: spec_encode_int_def spec_encode_width_def Let_def)

lemma spec_encode_width_range: "1 \<le> spec_encode_width m \<and> spec_encode_width m \<le> 4"
  by (simp add: spec_encode_width_def Let_def)

lemma length_spec_encode_int: "length (spec_encode_int m) = spec_encode_width m"
  by (simp add: spec_encode_int_alt)

lemma spec_encode_fits:
  assumes "0 \<le> m" "m < 2 ^ 30"
  shows "push_bit 2 m OR int (spec_encode_width m - 1) < 2 ^ (8 * spec_encode_width m)"
proof -
  have v: "0 \<le> push_bit 2 m" "push_bit 2 m < 2 ^ 32"
    using assms by (simp_all add: push_bit_eq_mult)
  have "(spec_encode_width m = 1 \<and> push_bit 2 m \<le> 0xFF)
      \<or> (spec_encode_width m = 2 \<and> push_bit 2 m \<le> 0xFFFF)
      \<or> (spec_encode_width m = 3 \<and> push_bit 2 m \<le> 0xFFFFFF)
      \<or> spec_encode_width m = 4"
    by (simp add: spec_encode_width_def Let_def)
  then consider (a) "spec_encode_width m = 1" "push_bit 2 m \<le> 0xFF"
    | (b) "spec_encode_width m = 2" "push_bit 2 m \<le> 0xFFFF"
    | (c) "spec_encode_width m = 3" "push_bit 2 m \<le> 0xFFFFFF"
    | (d) "spec_encode_width m = 4"
    by blast
  then show ?thesis
  proof cases
    case a then show ?thesis by simp
  next
    case b
    have "push_bit 2 m OR 1 < 2 ^ 16"
      by (rule OR_upper) (use v b in simp_all)
    with b show ?thesis by simp
  next
    case c
    have "push_bit 2 m OR 2 < 2 ^ 24"
      by (rule OR_upper) (use v c in simp_all)
    with c show ?thesis by simp
  next
    case d
    have "push_bit 2 m OR 3 < 2 ^ 32"
      by (rule OR_upper) (use v in simp_all)
    with d show ?thesis by simp
  qed
qed

lemma le_uint_spec_encode_int:
  assumes "0 \<le> m" "m < 2 ^ 30"
  shows "le_uint (spec_encode_int m) = push_bit 2 m OR int (spec_encode_width m - 1)"
proof -
  have "0 \<le> push_bit 2 m OR int (spec_encode_width m - 1)"
    using assms by (simp add: push_bit_eq_mult)
  then show ?thesis
    unfolding spec_encode_int_alt le_uint_bytes_of
    using spec_encode_fits [OF assms] by (simp only: take_bit_int_eq_self)
qed

lemma read_int_roundtrip:
  assumes m: "0 \<le> m" "m < 2 ^ 30"
    and avail: "4 \<le> length (spec_encode_int m @ rest)"
  shows "read_int \<lparr>data = pre @ spec_encode_int m @ rest, pos = length pre\<rparr> =
         Inr (m, \<lparr>data = pre @ spec_encode_int m @ rest,
                  pos = length pre + length (spec_encode_int m)\<rparr>)"
proof -
  let ?enc = "spec_encode_int m"
  let ?n = "spec_encode_width m"
  let ?r = "\<lparr>data = pre @ ?enc @ rest, pos = length pre\<rparr>"
  define w where "w = le_uint (take 4 (drop (pos ?r) (data ?r)))"
  have w: "w = le_uint (take 4 (?enc @ rest))" unfolding w_def by simp
  have len: "length ?enc = ?n" by (rule length_spec_encode_int)
  have n: "1 \<le> ?n" "?n \<le> 4" using spec_encode_width_range [of m] by simp_all
  have "take 4 (?enc @ rest) = ?enc @ take (4 - ?n) rest"
    using n len by simp
  then have tb: "take_bit (8 * ?n) w = le_uint ?enc"
    unfolding w using take_bit_le_uint_prefix [of ?enc "take (4 - ?n) rest"] len by simp
  have k: "0 \<le> int (?n - 1)" "int (?n - 1) \<le> 3" using n by simp_all
  have "w AND 3 = take_bit 2 w" by (simp add: take_bit_eq_mask mask_eq_exp_minus_1)
  also have "\<dots> = take_bit 2 (take_bit (8 * ?n) w)" using n by (simp add: min_def)
  also have "\<dots> = (push_bit 2 m OR int (?n - 1)) AND 3"
    unfolding tb le_uint_spec_encode_int [OF m] by (simp add: take_bit_eq_mask mask_eq_exp_minus_1)
  also have "\<dots> = int (?n - 1)" by (rule low_bits_or(1) [OF k])
  finally have bc: "nat ((w AND 3) + 1) = ?n" using n by simp
  have val: "drop_bit 2 (take_bit (8 * ?n) w) = m"
    unfolding tb le_uint_spec_encode_int [OF m] by (rule low_bits_or(2) [OF k])
  have "pos ?r + 4 \<le> length (data ?r)" using avail by simp
  from read_int_ok [OF this]
  have "read_int ?r = Inr (drop_bit 2 (take_bit (8 * nat ((w AND 3) + 1)) w),
          ?r\<lparr>pos := pos ?r + nat ((w AND 3) + 1)\<rparr>)"
    unfolding Let_def w_def [symmetric] .
  then show ?thesis
    unfolding bc val len by simp
qed

text \<open>
  Claim C2. Whenever four bytes are available at the read position and decode to the
  little-endian value \<open>w\<close>, \<open>_read_int\<close> returns \<open>w\<close> masked to \<open>8 * n\<close> bits and shifted
  right by two, where \<open>n = (w AND 3) + 1\<close> lies in 1..4, and leaves the position exactly
  \<open>n\<close> bytes further. Hence for every \<open>m\<close> in \<open>[0, 2^30)\<close>, reading the minimal-width
  encoding of \<open>m\<close> returns \<open>m\<close> and consumes its 1 to 4 bytes.
\<close>

theorem read_int_varint:
  "(\<forall>r. pos r + 4 \<le> length (data r) \<longrightarrow>
      (let w = le_uint (take 4 (drop (pos r) (data r)));
           n = nat ((w AND 3) + 1)
       in 1 \<le> n \<and> n \<le> 4 \<and>
          read_int r = Inr (drop_bit 2 (take_bit (8 * n) w), r\<lparr>pos := pos r + n\<rparr>)))
   \<and> (\<forall>m pre rest.
        0 \<le> m \<and> m < 2 ^ 30 \<and> 4 \<le> length (spec_encode_int m @ rest) \<longrightarrow>
        read_int \<lparr>data = pre @ spec_encode_int m @ rest, pos = length pre\<rparr> =
          Inr (m, \<lparr>data = pre @ spec_encode_int m @ rest,
                   pos = length pre + length (spec_encode_int m)\<rparr>)
        \<and> 1 \<le> length (spec_encode_int m) \<and> length (spec_encode_int m) \<le> 4)"
proof (intro conjI allI impI)
  fix r :: BinaryReader
  assume a: "pos r + 4 \<le> length (data r)"
  define w where "w = le_uint (take 4 (drop (pos r) (data r)))"
  have "0 \<le> w AND 3" "w AND 3 \<le> 3" using bytes_count_range [of w] by simp_all
  then have "1 \<le> nat ((w AND 3) + 1)" "nat ((w AND 3) + 1) \<le> 4" by linarith+
  then show "let w = le_uint (take 4 (drop (pos r) (data r)));
           n = nat ((w AND 3) + 1)
       in 1 \<le> n \<and> n \<le> 4 \<and>
          read_int r = Inr (drop_bit 2 (take_bit (8 * n) w), r\<lparr>pos := pos r + n\<rparr>)"
    using read_int_ok [OF a] unfolding Let_def w_def by simp
next
  fix m :: int and pre rest :: "byte list"
  assume a: "0 \<le> m \<and> m < 2 ^ 30 \<and> 4 \<le> length (spec_encode_int m @ rest)"
  then show "read_int \<lparr>data = pre @ spec_encode_int m @ rest, pos = length pre\<rparr> =
          Inr (m, \<lparr>data = pre @ spec_encode_int m @ rest,
                   pos = length pre + length (spec_encode_int m)\<rparr>)"
    using read_int_roundtrip [of m rest pre] by simp
  show "1 \<le> length (spec_encode_int m)" "length (spec_encode_int m) \<le> 4"
    using spec_encode_width_range [of m] by (simp_all add: length_spec_encode_int)
qed

theorem read_int_varint_witness:
  "read_int \<lparr>data = [5, 1, 0, 0], pos = 0\<rparr> = Inr (65, \<lparr>data = [5, 1, 0, 0], pos = 2\<rparr>)
   \<and> read_int \<lparr>data = [9] @ spec_encode_int 1000000 @ [7], pos = 1\<rparr> =
       Inr (1000000, \<lparr>data = [9] @ spec_encode_int 1000000 @ [7], pos = 4\<rparr>)"
proof
  have "pos \<lparr>data = [5, 1, 0, 0], pos = 0\<rparr> + 4 \<le> length (data \<lparr>data = [5, 1, 0, 0 :: byte], pos = 0\<rparr>)"
    by simp
  with read_int_varint [THEN conjunct1, rule_format, of "\<lparr>data = [5, 1, 0, 0], pos = 0\<rparr>"]
  show "read_int \<lparr>data = [5, 1, 0, 0], pos = 0\<rparr> = Inr (65, \<lparr>data = [5, 1, 0, 0], pos = 2\<rparr>)"
    by (simp add: Let_def)
  have e: "spec_encode_int 1000000 = [2, 9, 61]"
    by (simp add: spec_encode_int_def Let_def upt_rec drop_bit_eq_div)
  have "(0::int) \<le> 1000000 \<and> (1000000::int) < 2 ^ 30 \<and> 4 \<le> length (spec_encode_int 1000000 @ [7])"
    by (simp add: e)
  with read_int_varint [THEN conjunct2, rule_format, of 1000000 "[7]" "[9]"]
  show "read_int \<lparr>data = [9] @ spec_encode_int 1000000 @ [7], pos = 1\<rparr> =
       Inr (1000000, \<lparr>data = [9] @ spec_encode_int 1000000 @ [7], pos = 4\<rparr>)"
    by (simp add: e)
qed


end
